theory Spec2Isabelle
  imports Complex_Main
begin

section \<open>Errors (utils/errors.ts)\<close>

text \<open>
  The error family of the library. A JavaScript \<open>throw\<close> may carry any value, so a thrown
  value is either an \<open>Error\<close> instance or some other value, kept by its \<open>String(...)\<close>
  rendering. The derived \<open>message\<close> strings of the subclasses are not modelled.
\<close>

datatype PluginPhase = Install | Validate | Transform | Handle

datatype js_error =
    Error string
  | ValidationError "string list"
  | PluginError string PluginPhase js_error
  | CollectionCancelledError string
  | RetryExhaustedError int js_error
  | TypeError string

datatype thrown = Thrown js_error | ThrownValue string

text \<open>\<open>error instanceof Error ? error : new Error(String(error))\<close>\<close>

definition toError :: "thrown \<Rightarrow> js_error" where
  "toError t = (case t of Thrown e \<Rightarrow> e | ThrownValue s \<Rightarrow> Error s)"

text \<open>
  \<open>new RetryExhaustedError(attempts, lastError!)\<close>: the constructor reads
  \<open>lastError.message\<close>, which raises a \<open>TypeError\<close> when \<open>lastError\<close> is still \<open>null\<close>.
\<close>

definition newRetryExhaustedError :: "int \<Rightarrow> js_error option \<Rightarrow> js_error" where
  "newRetryExhaustedError n lastError =
     (case lastError of
        None \<Rightarrow> TypeError ''Cannot read properties of null''
      | Some e \<Rightarrow> RetryExhaustedError n e)"

section \<open>Retry executor (core/retry.ts)\<close>

datatype backoff = Exponential | Linear | Fixed

text \<open>
  \<open>calculateDelay\<close>. Numbers are exact reals here (the source computes in IEEE doubles);
  the value returned by \<open>Math.random()\<close>, a number in \<open>[0, 1)\<close>, is the last argument.
  \<open>Math.round\<close> rounds half up, as \<open>round\<close> does.
\<close>

definition calculateDelay :: "int \<Rightarrow> real \<Rightarrow> real \<Rightarrow> backoff \<Rightarrow> real \<Rightarrow> int" where
  "calculateDelay attempt baseDelay maxDelay bo rnd =
     (let delay = (case bo of
                     Exponential \<Rightarrow> baseDelay * (2 powi (attempt - 1))
                   | Linear \<Rightarrow> baseDelay * of_int attempt
                   | Fixed \<Rightarrow> baseDelay);
          jitter = delay * (1 / 10) * (rnd * 2 - 1);
          delay' = min (delay + jitter) maxDelay
      in round delay')"



record RetryConfig =
  attempts :: int
  baseDelay :: real
  maxDelay :: "real option"
  backoff :: backoff
  retryOn :: "(js_error \<Rightarrow> thrown + bool) option"

record RetryOptions = RetryConfig +
  onRetry :: "(int \<Rightarrow> js_error \<Rightarrow> int \<Rightarrow> thrown option) option"

text \<open>
  What a run of \<open>withRetry\<close> does, in order: each call of \<open>fn\<close> (by its attempt number),
  each call of the \<open>onRetry\<close> observer and each \<open>sleep\<close>.
\<close>

datatype retry_event = Attempt int | OnRetry int js_error int | Sleep int

text \<open>
  The \<open>for\<close> loop of \<open>withRetry\<close> from a given attempt number, with the loop variable
  \<open>lastError\<close>. \<open>fn k\<close> is the outcome of the \<open>k\<close>-th call of the operation (\<open>Inl\<close>: it
  rejects), \<open>random k\<close> the random number drawn after the \<open>k\<close>-th failure. The user's
  callbacks \<open>retryOn\<close> and \<open>onRetry\<close> may throw themselves, which leaves the loop.
\<close>

function retryLoop ::
  "RetryOptions \<Rightarrow> (int \<Rightarrow> thrown + 'a) \<Rightarrow> (int \<Rightarrow> real) \<Rightarrow> int \<Rightarrow> js_error option
     \<Rightarrow> (thrown + 'a) \<times> retry_event list" where
  "retryLoop opts fn random attempt lastError =
     (if attempt \<le> attempts opts then
        (case fn attempt of
           Inr v \<Rightarrow> (Inr v, [Attempt attempt])
         | Inl x \<Rightarrow>
             (let lastError' = toError x in
              case (case retryOn opts of None \<Rightarrow> Inr True | Some p \<Rightarrow> p lastError') of
                Inl t \<Rightarrow> (Inl t, [Attempt attempt])
              | Inr False \<Rightarrow> (Inl (Thrown lastError'), [Attempt attempt])
              | Inr True \<Rightarrow>
                  if attempt \<ge> attempts opts then
                    (Inl (Thrown (newRetryExhaustedError (attempts opts) (Some lastError'))),
                     [Attempt attempt])
                  else
                    (let delay = calculateDelay attempt (baseDelay opts)
                                   (case maxDelay opts of None \<Rightarrow> 30000 | Some m \<Rightarrow> m)
                                   (backoff opts) (random attempt)
                     in case onRetry opts of
                          None \<Rightarrow>
                            (case retryLoop opts fn random (attempt + 1) (Some lastError') of
                               (r, tr) \<Rightarrow> (r, Attempt attempt # Sleep delay # tr))
                        | Some h \<Rightarrow>
                            (case h attempt lastError' delay of
                               Some t \<Rightarrow>
                                 (Inl t, [Attempt attempt, OnRetry attempt lastError' delay])
                             | None \<Rightarrow>
                                 (case retryLoop opts fn random (attempt + 1) (Some lastError') of
                                    (r, tr) \<Rightarrow>
                                      (r, Attempt attempt # OnRetry attempt lastError' delay
                                            # Sleep delay # tr))))))
      else (Inl (Thrown (newRetryExhaustedError (attempts opts) lastError)), []))"
  by pat_completeness auto
termination
  by (relation "measure (\<lambda>(opts, fn, random, attempt, lastError). nat (attempts opts + 1 - attempt))")
     auto

definition withRetry ::
  "RetryOptions \<Rightarrow> (int \<Rightarrow> thrown + 'a) \<Rightarrow> (int \<Rightarrow> real) \<Rightarrow> (thrown + 'a) \<times> retry_event list" where
  "withRetry opts fn random = retryLoop opts fn random 1 None"

text \<open>The attempt numbers of the calls of \<open>fn\<close> in a run, in order.\<close>

fun attemptsMade :: "retry_event list \<Rightarrow> int list" where
  "attemptsMade [] = []"
| "attemptsMade (Attempt k # tr) = k # attemptsMade tr"
| "attemptsMade (_ # tr) = attemptsMade tr"

text \<open>\<open>retryOn\<close> is absent, or it returns \<open>true\<close> for the error.\<close>

definition retryAllowed :: "RetryOptions \<Rightarrow> js_error \<Rightarrow> bool" where
  "retryAllowed opts e = (case retryOn opts of None \<Rightarrow> True | Some p \<Rightarrow> p e = Inr True)"

text \<open>
  The delays of the \<open>sleep\<close> calls in a run, in order.
\<close>

fun sleepsMade :: "retry_event list \<Rightarrow> int list" where
  "sleepsMade [] = []"
| "sleepsMade (Sleep d # tr) = d # sleepsMade tr"
| "sleepsMade (_ # tr) = sleepsMade tr"

text \<open>
  One pass through the loop body, used to reason about the loop: it either leaves the loop
  with a result (\<open>Done\<close>) or goes on to the next attempt (\<open>Again\<close>) with the new
  \<open>lastError\<close>. \<open>retryLoop_unfold\<close> below shows that the loop is the iteration of it.
\<close>

datatype 'a retry_step = Done "thrown + 'a" "retry_event list" | Again js_error "retry_event list"

definition retryStep ::
  "RetryOptions \<Rightarrow> (int \<Rightarrow> thrown + 'a) \<Rightarrow> (int \<Rightarrow> real) \<Rightarrow> int \<Rightarrow> 'a retry_step" where
  "retryStep opts fn random attempt =
     (case fn attempt of
        Inr v \<Rightarrow> Done (Inr v) [Attempt attempt]
      | Inl x \<Rightarrow>
          (case (case retryOn opts of None \<Rightarrow> Inr True | Some p \<Rightarrow> p (toError x)) of
             Inl t \<Rightarrow> Done (Inl t) [Attempt attempt]
           | Inr False \<Rightarrow> Done (Inl (Thrown (toError x))) [Attempt attempt]
           | Inr True \<Rightarrow>
               if attempt \<ge> attempts opts then
                 Done (Inl (Thrown (RetryExhaustedError (attempts opts) (toError x)))) [Attempt attempt]
               else
                 (let delay = calculateDelay attempt (baseDelay opts)
                                (case maxDelay opts of None \<Rightarrow> 30000 | Some m \<Rightarrow> m)
                                (backoff opts) (random attempt)
                  in case onRetry opts of
                       None \<Rightarrow> Again (toError x) [Attempt attempt, Sleep delay]
                     | Some h \<Rightarrow>
                         (case h attempt (toError x) delay of
                            Some t \<Rightarrow> Done (Inl t) [Attempt attempt, OnRetry attempt (toError x) delay]
                          | None \<Rightarrow> Again (toError x)
                                     [Attempt attempt, OnRetry attempt (toError x) delay, Sleep delay]))))"

text \<open>Example inputs for the retry executor.\<close>

definition vetoOptions :: RetryOptions where
  "vetoOptions = \<lparr>attempts = 3, baseDelay = 100, maxDelay = Some 10000, backoff = Exponential,
     retryOn = Some (\<lambda>e. Inr (e \<noteq> Error ''fatal'')), onRetry = None\<rparr>"


definition fatalSecond :: "int \<Rightarrow> thrown + string" where
  "fatalSecond k =
     (if k = 2 then Inl (Thrown (Error ''fatal'')) else Inl (Thrown (Error ''network'')))"



section \<open>Coalescing scheduler (core/debouncer.ts)\<close>

text \<open>
  The fields of the \<open>Debouncer\<close> class. A timer field holds the delay its pending timer was
  armed with (\<open>None\<close> is \<open>null\<close>). Each call creates a promise, named here by a number
  the caller picks. Two more fields record what the outside observes: \<open>fnCalls\<close>, the
  arguments of every call of the wrapped function in order, and \<open>settled\<close>, every promise
  settled so far with its outcome (\<open>Inr\<close> resolved, \<open>Inl\<close> rejected). The wrapped function
  is \<open>fn n args\<close>, its outcome when called with \<open>args\<close> after \<open>n\<close> earlier calls; whether it
  throws, returns a value or returns a promise, \<open>execute\<close> hands that one outcome to every
  promise of its snapshot, so the settlement is recorded at the call.
\<close>

record DebouncerOptions =
  wait :: int
  maxWait :: "int option"
  leading :: "bool option"

record ('a, 'r) Debouncer =
  timeoutId :: "int option"
  maxWaitTimeoutId :: "int option"
  lastArgs :: "'a option"
  leadingExecuted :: bool
  pendingPromises :: "nat list"
  fnCalls :: "'a list"
  settled :: "(nat \<times> (thrown + 'r)) list"

definition newDebouncer :: "('a, 'r) Debouncer" where
  "newDebouncer = \<lparr>timeoutId = None, maxWaitTimeoutId = None, lastArgs = None,
     leadingExecuted = False, pendingPromises = [], fnCalls = [], settled = []\<rparr>"

definition clearTimeouts :: "('a, 'r) Debouncer \<Rightarrow> ('a, 'r) Debouncer" where
  "clearTimeouts s = s\<lparr>timeoutId := None, maxWaitTimeoutId := None\<rparr>"

text \<open>
  \<open>execute\<close>: clear the timers, take the snapshot of the arguments and of the promises,
  reset the pending state and the leading flag, then call the function (unless nothing
  was pending) and settle every promise of the snapshot with its outcome.
\<close>

definition execute :: "(nat \<Rightarrow> 'a \<Rightarrow> thrown + 'r) \<Rightarrow> ('a, 'r) Debouncer \<Rightarrow> ('a, 'r) Debouncer" where
  "execute fn s =
     (let s1 = clearTimeouts s;
          args = lastArgs s1;
          promises = pendingPromises s1;
          s2 = s1\<lparr>lastArgs := None, pendingPromises := [], leadingExecuted := False\<rparr>
      in case args of
           None \<Rightarrow> s2
         | Some a \<Rightarrow>
             (let result = fn (length (fnCalls s2)) a
              in s2\<lparr>fnCalls := fnCalls s2 @ [a],
                     settled := settled s2 @ map (\<lambda>p. (p, result)) promises\<rparr>))"

text \<open>
  \<open>call\<close>, for the promise \<open>p\<close> it creates: record the arguments and the promise; on the
  leading edge execute at once; otherwise arm the trailing timer anew and, when
  \<open>maxWait\<close> is set and no deadline timer is armed, the deadline timer.
\<close>

definition call ::
  "DebouncerOptions \<Rightarrow> (nat \<Rightarrow> 'a \<Rightarrow> thrown + 'r) \<Rightarrow> nat \<Rightarrow> 'a \<Rightarrow> ('a, 'r) Debouncer
     \<Rightarrow> ('a, 'r) Debouncer" where
  "call opts fn p args s =
     (let s1 = s\<lparr>lastArgs := Some args, pendingPromises := pendingPromises s @ [p]\<rparr>
      in if leading opts = Some True \<and> \<not> leadingExecuted s1 then
           execute fn (s1\<lparr>leadingExecuted := True\<rparr>)
         else
           (let s2 = s1\<lparr>timeoutId := Some (wait opts)\<rparr>
            in if maxWait opts \<noteq> None \<and> maxWaitTimeoutId s2 = None
               then s2\<lparr>maxWaitTimeoutId := maxWait opts\<rparr>
               else s2))"

definition flush :: "(nat \<Rightarrow> 'a \<Rightarrow> thrown + 'r) \<Rightarrow> ('a, 'r) Debouncer \<Rightarrow> ('a, 'r) Debouncer" where
  "flush fn s = (if lastArgs s \<noteq> None then execute fn s else s)"

definition cancel :: "('a, 'r) Debouncer \<Rightarrow> ('a, 'r) Debouncer" where
  "cancel s =
     (let s1 = (clearTimeouts s)\<lparr>lastArgs := None, leadingExecuted := False\<rparr>;
          error = Error ''Debounced call cancelled''
      in s1\<lparr>settled := settled s1 @ map (\<lambda>p. (p, Inl (Thrown error))) (pendingPromises s1),
             pendingPromises := []\<rparr>)"

definition pending :: "('a, 'r) Debouncer \<Rightarrow> bool" where
  "pending s = (lastArgs s \<noteq> None)"

text \<open>
  The callbacks of the two timers, which the event loop runs when an armed timer is due:
  each calls \<open>execute\<close>.
\<close>

definition timeoutFires :: "(nat \<Rightarrow> 'a \<Rightarrow> thrown + 'r) \<Rightarrow> ('a, 'r) Debouncer \<Rightarrow> ('a, 'r) Debouncer" where
  "timeoutFires fn s = (if timeoutId s \<noteq> None then execute fn s else s)"

definition maxWaitFires :: "(nat \<Rightarrow> 'a \<Rightarrow> thrown + 'r) \<Rightarrow> ('a, 'r) Debouncer \<Rightarrow> ('a, 'r) Debouncer" where
  "maxWaitFires fn s = (if maxWaitTimeoutId s \<noteq> None then execute fn s else s)"

text \<open>
  What can happen to a scheduler, and its state after a sequence of such events from a
  new one. \<open>callAll\<close> is a sequence of calls alone.
\<close>

datatype 'a debouncer_event = Call nat 'a | TimeoutFires | MaxWaitFires | Flush | Cancel

fun debouncerStep ::
  "DebouncerOptions \<Rightarrow> (nat \<Rightarrow> 'a \<Rightarrow> thrown + 'r) \<Rightarrow> ('a, 'r) Debouncer \<Rightarrow> 'a debouncer_event
     \<Rightarrow> ('a, 'r) Debouncer" where
  "debouncerStep opts fn s (Call p args) = call opts fn p args s"
| "debouncerStep opts fn s TimeoutFires = timeoutFires fn s"
| "debouncerStep opts fn s MaxWaitFires = maxWaitFires fn s"
| "debouncerStep opts fn s Flush = flush fn s"
| "debouncerStep opts fn s Cancel = cancel s"

definition debouncerRun ::
  "DebouncerOptions \<Rightarrow> (nat \<Rightarrow> 'a \<Rightarrow> thrown + 'r) \<Rightarrow> 'a debouncer_event list \<Rightarrow> ('a, 'r) Debouncer" where
  "debouncerRun opts fn evs = foldl (debouncerStep opts fn) newDebouncer evs"

definition callAll ::
  "DebouncerOptions \<Rightarrow> (nat \<Rightarrow> 'a \<Rightarrow> thrown + 'r) \<Rightarrow> ('a, 'r) Debouncer \<Rightarrow> (nat \<times> 'a) list
     \<Rightarrow> ('a, 'r) Debouncer" where
  "callAll opts fn s calls = foldl (\<lambda>s c. call opts fn (fst c) (snd c) s) s calls"

text \<open>
  Example inputs for the scheduler.
\<close>

definition leadingOptions :: DebouncerOptions where
  "leadingOptions = \<lparr>wait = 100, maxWait = None, leading = Some True\<rparr>"

definition trailingOptions :: DebouncerOptions where
  "trailingOptions = \<lparr>wait = 100, maxWait = Some 200, leading = None\<rparr>"

definition echo :: "nat \<Rightarrow> string \<Rightarrow> thrown + string" where
  "echo n a = Inr a"

text \<open>
  Notions for the properties below: a scheduler with nothing pending; the promises and
  the arguments of the calls among some events; and what holds of every state a
  scheduler reaches.
\<close>

definition idle :: "('a, 'r) Debouncer \<Rightarrow> bool" where
  "idle s = (lastArgs s = None \<and> pendingPromises s = [] \<and> \<not> leadingExecuted s)"

fun callers :: "'a debouncer_event list \<Rightarrow> nat list" where
  "callers [] = []"
| "callers (Call p a # evs) = p # callers evs"
| "callers (_ # evs) = callers evs"

fun callArgs :: "'a debouncer_event list \<Rightarrow> 'a list" where
  "callArgs [] = []"
| "callArgs (Call p a # evs) = a # callArgs evs"
| "callArgs (_ # evs) = callArgs evs"

definition consistent :: "('a, 'r) Debouncer \<Rightarrow> bool" where
  "consistent s =
     ((lastArgs s = None \<longleftrightarrow> pendingPromises s = []) \<and> \<not> leadingExecuted s \<and>
      (pendingPromises s \<noteq> [] \<longrightarrow> timeoutId s \<noteq> None))"

section \<open>Feedback types (types/feedback.ts)\<close>

text \<open>
  \<open>FeedbackItem\<close>, \<open>ValidationResult\<close> and \<open>CollectionContext\<close>. The fields \<open>id\<close> and \<open>type\<close>
  of an item are \<open>itemId\<close> and \<open>itemType\<close> here, those of the context carry the prefix
  \<open>ctx\<close>. Metadata is a map from keys to values.
\<close>

record ('d, 'm) FeedbackItem =
  itemId :: string
  itemType :: string
  data :: 'd
  metadata :: "string \<rightharpoonup> 'm"
  timestamp :: int

record ValidationResult =
  valid :: bool
  errors :: "string list"

record ('d, 'm) CollectionContext =
  ctxType :: string
  ctxData :: 'd
  ctxMetadata :: "string \<rightharpoonup> 'm"
  ctxTimestamp :: int

section \<open>Plugins (types/plugins.ts) and the pipeline (core/pipeline.ts)\<close>

text \<open>
  A plugin has a name and may have an \<open>install\<close> hook. The hook is kept by what a call of
  it does: \<open>None\<close> when the plugin has none, \<open>Some None\<close> when it returns, \<open>Some (Some t)\<close>
  when it throws \<open>t\<close>. The capabilities are functions that may throw (\<open>Inl\<close>). A handler
  is called with the number of the retry attempt it runs in (1 without retry) and tells
  when its promise settles and how (\<open>None\<close>: fulfilled); the time only orders the
  rejections that \<open>Promise.all\<close> observes. The discriminant \<open>type\<close> of a plugin is the
  constructor of \<open>FeedbackPlugin\<close>.
\<close>

record PluginBase =
  name :: string
  install :: "thrown option option"

record 'd ValidatorPlugin = PluginBase +
  validate :: "'d \<Rightarrow> thrown + ValidationResult"

record ('d, 'm) TransformerPlugin = PluginBase +
  transform :: "('d, 'm) FeedbackItem \<Rightarrow> thrown + ('d, 'm) FeedbackItem"

record ('d, 'm) HandlerPlugin = PluginBase +
  handle :: "int \<Rightarrow> ('d, 'm) FeedbackItem \<Rightarrow> nat \<times> thrown option"


record ('d, 'm) PluginRegistry =
  validators :: "'d ValidatorPlugin list"
  transformers :: "('d, 'm) TransformerPlugin list"
  handlers :: "('d, 'm) HandlerPlugin list"



text \<open>What one execution of the pipeline calls, in order.\<close>

datatype ErrorPhase = PhaseValidation | PhaseCollection | PhaseTransform | PhaseHandler

datatype pipeline_event =
    BeforeCollectHookRun nat
  | SchemaChecked
  | ValidatorRun string
  | IdGenerated string
  | TransformerRun string
  | HandlerRun string
  | RetryAttempt int
  | RetryHooksRun int js_error int
  | RetrySleep int
  | AfterCollectHookRun nat
  | ErrorHookRun nat js_error "ErrorPhase option"

text \<open>\<open>runValidators\<close>: the loop with its accumulator \<open>allErrors\<close>.\<close>

fun runValidatorsLoop ::
  "'d ValidatorPlugin list \<Rightarrow> 'd \<Rightarrow> string list \<Rightarrow> (thrown + ValidationResult) \<times> pipeline_event list" where
  "runValidatorsLoop [] d allErrors =
     (Inr \<lparr>valid = (length allErrors = 0), errors = allErrors\<rparr>, [])"
| "runValidatorsLoop (validator # rest) d allErrors =
     (case validate validator d of
        Inl t \<Rightarrow>
          (Inl (Thrown (PluginError (name validator) Validate (toError t))),
           [ValidatorRun (name validator)])
      | Inr result \<Rightarrow>
          (case runValidatorsLoop rest d
                  (if \<not> valid result then allErrors @ errors result else allErrors) of
             (r, evs) \<Rightarrow> (r, ValidatorRun (name validator) # evs)))"

definition runValidators ::
  "'d ValidatorPlugin list \<Rightarrow> 'd \<Rightarrow> (thrown + ValidationResult) \<times> pipeline_event list" where
  "runValidators vs d = runValidatorsLoop vs d []"






text \<open>
  The errors a validator returns, and those \<open>runValidators\<close> takes from it: the errors of
  a result that is not valid.
\<close>

definition validatorErrors :: "'d ValidatorPlugin \<Rightarrow> 'd \<Rightarrow> string list" where
  "validatorErrors v d = (case validate v d of Inr r \<Rightarrow> errors r | Inl t \<Rightarrow> [])"

definition reportedErrors :: "'d ValidatorPlugin \<Rightarrow> 'd \<Rightarrow> string list" where
  "reportedErrors v d =
     (case validate v d of Inr r \<Rightarrow> (if valid r then [] else errors r) | Inl t \<Rightarrow> [])"

definition warnOnly :: "unit ValidatorPlugin" where
  "warnOnly = \<lparr>name = ''W'', install = None,
     validate = (\<lambda>d. Inr \<lparr>valid = True, errors = [''warning'']\<rparr>)\<rparr>"

definition rejectWith :: "string \<Rightarrow> string list \<Rightarrow> unit ValidatorPlugin" where
  "rejectWith nm errs = \<lparr>name = nm, install = None,
     validate = (\<lambda>d. Inr \<lparr>valid = False, errors = errs\<rparr>)\<rparr>"

section \<open>Collector (core/collector.ts, core/schema.ts, types/config.ts, types/hooks.ts)\<close>

text \<open>
  A Zod schema is kept by what \<open>safeParse\<close> answers: \<open>None\<close> for success, \<open>Some issues\<close>
  for the formatted messages of a failure. A hook is a function that may throw. A
  \<open>beforeCollect\<close> hook answers \<open>Inr False\<close> when it returns \<open>false\<close> and \<open>Inr True\<close> for
  any other value. The field \<open>type\<close> of the configuration is \<open>collectorType\<close>; the hook
  lists \<open>error\<close> and \<open>retry\<close> are \<open>errorHooks\<close> and \<open>retryHooks\<close>.
\<close>

record ('d, 'm) CollectorConfig =
  collectorType :: string
  schema :: "('d \<Rightarrow> string list option) option"
  debounce :: "DebouncerOptions option"
  retry :: "RetryConfig option"
  defaultMetadata :: "(string \<rightharpoonup> 'm) option"

record ('d, 'm) HookRegistry =
  beforeCollect :: "(('d, 'm) CollectionContext \<Rightarrow> thrown + bool) list"
  afterCollect :: "(('d, 'm) FeedbackItem \<Rightarrow> thrown option) list"
  errorHooks :: "(js_error \<Rightarrow> ErrorPhase option \<Rightarrow> thrown option) list"
  retryHooks :: "(int \<Rightarrow> js_error \<Rightarrow> int \<Rightarrow> thrown option) list"

record ('d, 'm) FeedbackCollector =
  config :: "('d, 'm) CollectorConfig"
  plugins :: "('d, 'm) PluginRegistry"
  hooks :: "('d, 'm) HookRegistry"








definition onAfterCollect ::
  "(('d, 'm) FeedbackItem \<Rightarrow> thrown option) \<Rightarrow> ('d, 'm) FeedbackCollector
     \<Rightarrow> ('d, 'm) FeedbackCollector" where
  "onAfterCollect hook c = c\<lparr>hooks := (hooks c)\<lparr>afterCollect := afterCollect (hooks c) @ [hook]\<rparr>\<rparr>"


definition onRetryHook ::
  "(int \<Rightarrow> js_error \<Rightarrow> int \<Rightarrow> thrown option) \<Rightarrow> ('d, 'm) FeedbackCollector
     \<Rightarrow> ('d, 'm) FeedbackCollector" where
  "onRetryHook hook c = c\<lparr>hooks := (hooks c)\<lparr>retryHooks := retryHooks (hooks c) @ [hook]\<rparr>\<rparr>"














section \<open>Memory handler (plugins/handlers/memory.ts)\<close>

text \<open>
  \<open>maxItems\<close> is an integer here. \<open>items\<close> is the private array \<open>_items\<close>;
  \<open>slice(-k)\<close> for a positive \<open>k\<close> keeps the last \<open>k\<close> elements.
\<close>

record ('d, 'm) MemoryHandler =
  maxItems :: int
  items :: "('d, 'm) FeedbackItem list"

definition newMemoryHandler :: "int option \<Rightarrow> ('d, 'm) MemoryHandler" where
  "newMemoryHandler opt = \<lparr>maxItems = (case opt of None \<Rightarrow> 0 | Some k \<Rightarrow> k), items = []\<rparr>"

definition sliceLast :: "int \<Rightarrow> 'a list \<Rightarrow> 'a list" where
  "sliceLast k xs = drop (length xs - nat k) xs"

definition memoryHandle ::
  "('d, 'm) MemoryHandler \<Rightarrow> ('d, 'm) FeedbackItem \<Rightarrow> ('d, 'm) MemoryHandler" where
  "memoryHandle h item =
     (let pushed = items h @ [item]
      in if maxItems h > 0 \<and> int (length pushed) > maxItems h
         then h\<lparr>items := sliceLast (maxItems h) pushed\<rparr>
         else h\<lparr>items := pushed\<rparr>)"

definition memoryCount :: "('d, 'm) MemoryHandler \<Rightarrow> nat" where
  "memoryCount h = length (items h)"

section \<open>Example inputs\<close>











definition exampleItem :: "nat \<Rightarrow> (nat, string) FeedbackItem" where
  "exampleItem score =
     \<lparr>itemId = ''id'', itemType = ''nps'', data = score, metadata = Map.empty, timestamp = 0\<rparr>"

section \<open>Properties of the retry executor\<close>

declare retryLoop.simps [simp del]

lemma retryLoop_unfold:
  "retryLoop opts fn random a le =
     (if a \<le> attempts opts then
        (case retryStep opts fn random a of
           Done r tr \<Rightarrow> (r, tr)
         | Again e pre \<Rightarrow>
             (case retryLoop opts fn random (a + 1) (Some e) of (r, tr) \<Rightarrow> (r, pre @ tr)))
      else (Inl (Thrown (newRetryExhaustedError (attempts opts) le)), []))"
  apply (subst retryLoop.simps)
  apply (simp add: retryStep_def Let_def newRetryExhaustedError_def
         split: sum.split option.split bool.split prod.split)
  done

lemma sleepsMade_append: "sleepsMade (xs @ ys) = sleepsMade xs @ sleepsMade ys"
  by (induction xs rule: sleepsMade.induct) auto

lemma attemptsMade_append: "attemptsMade (xs @ ys) = attemptsMade xs @ attemptsMade ys"
  by (induction xs rule: attemptsMade.induct) auto

lemma Attempt_in_set: "Attempt k \<in> set tr \<longleftrightarrow> k \<in> set (attemptsMade tr)"
  by (induction tr rule: attemptsMade.induct) auto

lemma retryStep_Done:
  "retryStep opts fn random a = Done r trm \<Longrightarrow>
     attemptsMade trm = [a] \<and> sleepsMade trm = []"
  by (auto simp: retryStep_def Let_def split: sum.splits option.splits bool.splits if_splits)

lemma retryStep_Again:
  "retryStep opts fn random a = Again e p \<Longrightarrow>
     attemptsMade p = [a] \<and> length (sleepsMade p) = 1 \<and> a < attempts opts \<and> (\<exists>x. fn a = Inl x \<and> e = toError x \<and> retryAllowed opts e)"
  by (auto simp: retryStep_def Let_def retryAllowed_def
      split: sum.splits option.splits bool.splits if_splits)


lemma retryStep_veto:
  "fn a = Inl t \<Longrightarrow> retryOn opts = Some p \<Longrightarrow> p (toError t) = Inr False \<Longrightarrow>
     retryStep opts fn random a = Done (Inl (Thrown (toError t))) [Attempt a]"
  by (simp add: retryStep_def)


lemma retryLoop_shape:
  "retryLoop opts fn random a le = (r, tr) \<Longrightarrow> a \<le> attempts opts \<Longrightarrow>
     \<exists>m trm pre. a \<le> m \<and> m \<le> attempts opts \<and> retryStep opts fn random m = Done r trm \<and>
       (\<forall>j. a \<le> j \<and> j < m \<longrightarrow> (\<exists>e p. retryStep opts fn random j = Again e p)) \<and>
       tr = pre @ trm \<and> attemptsMade pre = [a..m - 1] \<and>
       length (sleepsMade pre) = nat (m - a)"
proof (induction "nat (attempts opts - a)" arbitrary: a le r tr)
  case 0
  then have a: "a = attempts opts" by simp
  show ?case
  proof (cases "retryStep opts fn random a")
    case (Done r' trm)
    with "0.prems" have "r = r'" "tr = trm"
      by (simp_all add: retryLoop_unfold[of opts fn random a])
    with Done "0.prems" show ?thesis
      by - (rule exI[of _ a], rule exI[of _ trm], rule exI[of _ "[]"], auto)
  next
    case (Again e p)
    from retryStep_Again[OF this] a show ?thesis by simp
  qed
next
  case (Suc n)
  show ?case
  proof (cases "retryStep opts fn random a")
    case (Done r' trm)
    with Suc.prems have "r = r'" "tr = trm"
      by (simp_all add: retryLoop_unfold[of opts fn random a])
    with Done Suc.prems show ?thesis
      by - (rule exI[of _ a], rule exI[of _ trm], rule exI[of _ "[]"], auto)
  next
    case (Again e p)
    from retryStep_Again[OF this] have lt: "a < attempts opts" and mp: "attemptsMade p = [a]"
      and sp: "length (sleepsMade p) = 1"
      by simp_all
    obtain r' tr' where rec: "retryLoop opts fn random (a + 1) (Some e) = (r', tr')"
      by (cases "retryLoop opts fn random (a + 1) (Some e)") auto
    with Again Suc.prems have eq: "r = r'" "tr = p @ tr'"
      by (simp_all add: retryLoop_unfold[of opts fn random a])
    from Suc.hyps(2) lt have n: "n = nat (attempts opts - (a + 1))" by simp
    from Suc.hyps(1)[OF n rec] lt obtain m trm pre where
      m: "a + 1 \<le> m" "m \<le> attempts opts" "retryStep opts fn random m = Done r' trm"
        "\<forall>j. a + 1 \<le> j \<and> j < m \<longrightarrow> (\<exists>e p. retryStep opts fn random j = Again e p)"
        "tr' = pre @ trm" "attemptsMade pre = [a + 1..m - 1]"
        "length (sleepsMade pre) = nat (m - (a + 1))"
      by auto
    have steps: "\<forall>j. a \<le> j \<and> j < m \<longrightarrow> (\<exists>e p. retryStep opts fn random j = Again e p)"
    proof (intro allI impI)
      fix j assume j: "a \<le> j \<and> j < m"
      show "\<exists>e p. retryStep opts fn random j = Again e p"
      proof (cases "j = a")
        case True with Again show ?thesis by simp
      next
        case False with j m(4) show ?thesis by simp
      qed
    qed
    have made: "attemptsMade (p @ pre) = [a..m - 1]"
      using mp m(1,6) by (simp add: attemptsMade_append upto_rec1[of a "m - 1"])
    have slept: "length (sleepsMade (p @ pre)) = nat (m - a)"
      using sp m(1,7) by (simp add: sleepsMade_append)
    show ?thesis
      using m(1,2,3,5) steps made slept eq
      by - (rule exI[of _ m], rule exI[of _ trm], rule exI[of _ "p @ pre"], auto)
  qed
qed

lemma withRetry_no_attempts:
  "\<not> 1 \<le> attempts opts \<Longrightarrow> withRetry opts fn random = (r, tr) \<Longrightarrow> tr = []"
  by (simp add: withRetry_def retryLoop_unfold[of opts fn random 1])

text \<open>
  Claim C4. Whenever an attempt of \<open>withRetry\<close> is made and fails, and the configured
  \<open>retryOn\<close> predicate returns \<open>false\<close> for the error, the run ends with exactly that
  error (the value \<open>retryOn\<close> was given, not a \<open>RetryExhaustedError\<close> around it), this
  attempt is the last event of the run and the attempts made are \<open>1, ..., k\<close>: none
  follows. For \<open>k = 1\<close> no second attempt occurs.
\<close>

theorem retryOn_veto_surfaces_error:
  assumes run: "withRetry opts fn random = (r, tr)"
    and made: "Attempt k \<in> set tr"
    and fails: "fn k = Inl t"
    and pred: "retryOn opts = Some p"
    and veto: "p (toError t) = Inr False"
  shows "r = Inl (Thrown (toError t)) \<and> last tr = Attempt k \<and> attemptsMade tr = [1..k]"
proof -
  have one: "1 \<le> attempts opts"
    using withRetry_no_attempts[OF _ run] made by (cases "1 \<le> attempts opts") auto
  from run have "retryLoop opts fn random 1 None = (r, tr)" by (simp add: withRetry_def)
  from retryLoop_shape[OF this one] obtain m trm pre where
    m: "1 \<le> m" "m \<le> attempts opts" "retryStep opts fn random m = Done r trm"
       "\<forall>j. 1 \<le> j \<and> j < m \<longrightarrow> (\<exists>e p. retryStep opts fn random j = Again e p)"
       "tr = pre @ trm" "attemptsMade pre = [1..m - 1]"
    by blast
  have stepk: "retryStep opts fn random k = Done (Inl (Thrown (toError t))) [Attempt k]"
    using fails pred veto by (rule retryStep_veto)
  from retryStep_Done[OF m(3)] have trm: "attemptsMade trm = [m]" by simp
  have all: "attemptsMade tr = [1..m]"
    using m(1,5,6) trm by (simp add: attemptsMade_append upto_rec2[of 1 m])
  with made have "1 \<le> k" "k \<le> m" by (simp_all add: Attempt_in_set)
  with m(4) stepk have "k = m" by (cases "k < m") auto
  with m(3,5) stepk all show ?thesis by simp
qed

theorem retryOn_veto_surfaces_error_witness:
  "fst (withRetry vetoOptions fatalSecond (\<lambda>_. 1 / 2)) = Inl (Thrown (Error ''fatal'')) \<and>
   attemptsMade (snd (withRetry vetoOptions fatalSecond (\<lambda>_. 1 / 2))) = [1, 2]"
proof -
  have run: "withRetry vetoOptions fatalSecond (\<lambda>_. 1 / 2) =
      (Inl (Thrown (Error ''fatal'')), [Attempt 1, Sleep 100, Attempt 2])"
    by (simp add: withRetry_def retryLoop.simps vetoOptions_def fatalSecond_def toError_def
        calculateDelay_def Let_def)
  have "retryOn vetoOptions = Some (\<lambda>e. Inr (e \<noteq> Error ''fatal''))"
    by (simp add: vetoOptions_def)
  from retryOn_veto_surfaces_error[OF run _ _ this, of 2 "Thrown (Error ''fatal'')"]
  show ?thesis
    by (simp add: run fatalSecond_def toError_def upto_rec1)
qed



section \<open>Properties of the backoff delay\<close>






section \<open>Properties of the coalescing scheduler\<close>

lemma call_trailing:
  assumes "leading opts \<noteq> Some True"
  shows "lastArgs (call opts fn p a s) = Some a"
    and "pendingPromises (call opts fn p a s) = pendingPromises s @ [p]"
    and "fnCalls (call opts fn p a s) = fnCalls s"
    and "settled (call opts fn p a s) = settled s"
    and "timeoutId (call opts fn p a s) = Some (wait opts)"
    and "leadingExecuted (call opts fn p a s) = leadingExecuted s"
    and "maxWait opts \<noteq> None \<longrightarrow> maxWaitTimeoutId (call opts fn p a s) \<noteq> None"
  using assms by (auto simp: call_def Let_def)

lemma callAll_Nil: "callAll opts fn s [] = s"
  by (simp add: callAll_def)

lemma callAll_snoc:
  "callAll opts fn s (calls @ [c]) = call opts fn (fst c) (snd c) (callAll opts fn s calls)"
  by (simp add: callAll_def)

lemma callAll_trailing:
  assumes "leading opts \<noteq> Some True" "calls \<noteq> []"
  shows "lastArgs (callAll opts fn s calls) = Some (snd (last calls)) \<and>
         pendingPromises (callAll opts fn s calls) = pendingPromises s @ map fst calls \<and>
         fnCalls (callAll opts fn s calls) = fnCalls s \<and>
         settled (callAll opts fn s calls) = settled s \<and>
         timeoutId (callAll opts fn s calls) = Some (wait opts) \<and>
         leadingExecuted (callAll opts fn s calls) = leadingExecuted s \<and>
         (maxWait opts \<noteq> None \<longrightarrow> maxWaitTimeoutId (callAll opts fn s calls) \<noteq> None)"
  using assms(2)
proof (induction calls rule: rev_induct)
  case Nil
  then show ?case by simp
next
  case (snoc c calls)
  show ?case
  proof (cases "calls = []")
    case True
    then show ?thesis
      by (simp add: callAll_def call_trailing[OF assms(1)])
  next
    case False
    from snoc.IH[OF False] show ?thesis
      by (simp add: callAll_snoc call_trailing[OF assms(1)])
  qed
qed

lemma execute_pending:
  assumes "lastArgs s = Some a"
  shows "fnCalls (execute fn s) = fnCalls s @ [a]"
    and "settled (execute fn s) =
           settled s @ map (\<lambda>p. (p, fn (length (fnCalls s)) a)) (pendingPromises s)"
    and "idle (execute fn s)"
    and "timeoutId (execute fn s) = None" and "maxWaitTimeoutId (execute fn s) = None"
  using assms by (simp_all add: execute_def clearTimeouts_def Let_def idle_def)

lemma callers_append: "callers (xs @ ys) = callers xs @ callers ys"
  by (induction xs rule: callers.induct) auto

lemma callArgs_append: "callArgs (xs @ ys) = callArgs xs @ callArgs ys"
  by (induction xs rule: callArgs.induct) auto

lemma consistent_execute: "consistent (execute fn s)"
  by (simp add: consistent_def execute_def clearTimeouts_def Let_def split: option.split)

lemma consistent_step:
  assumes "consistent s"
  shows "consistent (debouncerStep opts fn s ev)"
proof (cases ev)
  case (Call p a)
  show ?thesis
  proof (cases "leading opts = Some True")
    case True
    with assms Call have "debouncerStep opts fn s ev =
        execute fn (s\<lparr>lastArgs := Some a, pendingPromises := pendingPromises s @ [p],
                       leadingExecuted := True\<rparr>)"
      by (simp add: call_def consistent_def Let_def)
    then show ?thesis by (simp add: consistent_execute)
  next
    case False
    with assms Call show ?thesis
      by (simp add: consistent_def call_trailing)
  qed
next
  case TimeoutFires
  with assms show ?thesis by (simp add: timeoutFires_def consistent_execute)
next
  case MaxWaitFires
  with assms show ?thesis by (simp add: maxWaitFires_def consistent_execute)
next
  case Flush
  with assms show ?thesis by (simp add: flush_def consistent_execute)
next
  case Cancel
  then show ?thesis by (simp add: cancel_def consistent_def clearTimeouts_def Let_def)
qed

lemma debouncerRun_snoc:
  "debouncerRun opts fn (evs @ [ev]) = debouncerStep opts fn (debouncerRun opts fn evs) ev"
  by (simp add: debouncerRun_def)

lemma consistent_run: "consistent (debouncerRun opts fn evs)"
proof (induction evs rule: rev_induct)
  case Nil
  show ?case by (simp add: debouncerRun_def consistent_def newDebouncer_def)
next
  case (snoc ev evs)
  then show ?case by (simp add: debouncerRun_snoc consistent_step)
qed

lemma execute_keeps_callers:
  assumes "consistent s"
  shows "map fst (settled (execute fn s)) @ pendingPromises (execute fn s) =
         map fst (settled s) @ pendingPromises s"
  using assms
  by (cases "lastArgs s")
     (simp_all add: execute_def clearTimeouts_def Let_def consistent_def comp_def)

lemma step_keeps_callers:
  assumes "consistent s"
  shows "map fst (settled (debouncerStep opts fn s ev)) @ pendingPromises (debouncerStep opts fn s ev) =
         map fst (settled s) @ pendingPromises s @ callers [ev]"
proof (cases ev)
  case (Call p a)
  show ?thesis
  proof (cases "leading opts = Some True")
    case True
    with assms Call show ?thesis
      by (simp add: call_def consistent_def Let_def execute_def clearTimeouts_def comp_def)
  next
    case False
    with Call show ?thesis by (simp add: call_trailing)
  qed
next
  case TimeoutFires
  with execute_keeps_callers[OF assms] show ?thesis by (simp add: timeoutFires_def)
next
  case MaxWaitFires
  with execute_keeps_callers[OF assms] show ?thesis by (simp add: maxWaitFires_def)
next
  case Flush
  with execute_keeps_callers[OF assms] show ?thesis by (simp add: flush_def)
next
  case Cancel
  then show ?thesis by (simp add: cancel_def clearTimeouts_def Let_def comp_def)
qed

lemma no_caller_dropped:
  "map fst (settled (debouncerRun opts fn evs)) @ pendingPromises (debouncerRun opts fn evs) =
     callers evs"
proof (induction evs rule: rev_induct)
  case Nil
  show ?case by (simp add: debouncerRun_def newDebouncer_def)
next
  case (snoc ev evs)
  from step_keeps_callers[OF consistent_run[of opts fn evs], of opts fn ev] snoc
  show ?case by (simp add: debouncerRun_snoc callers_append)
qed

lemma leading_every_call_executes:
  assumes "leading opts = Some True"
  shows "fnCalls (debouncerRun opts fn evs) = callArgs evs \<and>
         idle (debouncerRun opts fn evs) \<and> timeoutId (debouncerRun opts fn evs) = None \<and>
         maxWaitTimeoutId (debouncerRun opts fn evs) = None"
proof (induction evs rule: rev_induct)
  case Nil
  show ?case by (simp add: debouncerRun_def newDebouncer_def idle_def)
next
  case (snoc ev evs)
  then show ?case using assms
    by (cases ev)
       (simp_all add: debouncerRun_snoc callArgs_append call_def execute_def clearTimeouts_def
          Let_def idle_def timeoutFires_def maxWaitFires_def flush_def cancel_def)
qed

text \<open>
  Claim C1 fails on the source. \<open>call\<close> sets \<open>leadingExecuted\<close> and calls \<open>execute\<close>, which
  resets the flag before it returns, so the guard \<open>!this.leadingExecuted\<close> holds again at
  the next call: with \<open>leading = true\<close> every call executes at once. Here two calls in a
  row, with no timer or other event between them, run the wrapped function twice.
\<close>

theorem leading_burst_executes_twice:
  "fnCalls (debouncerRun leadingOptions echo [Call 1 ''a'', Call 2 ''b'']) = [''a'', ''b''] \<and>
   settled (debouncerRun leadingOptions echo [Call 1 ''a'', Call 2 ''b'']) =
     [(1, Inr ''a''), (2, Inr ''b'')]"
  by (simp add: debouncerRun_def call_def execute_def clearTimeouts_def newDebouncer_def
      leadingOptions_def echo_def Let_def)

text \<open>
  Claim C3. A batch is the calls \<open>calls\<close> made from an idle scheduler. In trailing mode
  nothing runs while they are buffered and a timer is armed; the timer callback and
  \<open>flush\<close> both run \<open>execute\<close>, which calls the wrapped function exactly once, with the
  arguments of the last call, and settles the promise of every call of the batch, in
  order, with the one outcome of that call. In leading mode a call from an idle scheduler
  is a batch of its own: it runs the function once with its arguments and settles its
  promise. Over any sequence of events every caller is either settled or still pending:
  none is dropped.
\<close>

theorem coalesced_batch_single_outcome:
  assumes idle: "idle s" and ne: "calls \<noteq> []"
  shows "(leading opts \<noteq> Some True \<longrightarrow>
            fnCalls (callAll opts fn s calls) = fnCalls s \<and>
            settled (callAll opts fn s calls) = settled s \<and>
            pending (callAll opts fn s calls) \<and>
            timeoutFires fn (callAll opts fn s calls) = execute fn (callAll opts fn s calls) \<and>
            flush fn (callAll opts fn s calls) = execute fn (callAll opts fn s calls) \<and>
            (maxWait opts \<noteq> None \<longrightarrow>
               maxWaitFires fn (callAll opts fn s calls) = execute fn (callAll opts fn s calls)) \<and>
            fnCalls (execute fn (callAll opts fn s calls)) = fnCalls s @ [snd (last calls)] \<and>
            settled (execute fn (callAll opts fn s calls)) =
              settled s @ map (\<lambda>c. (fst c, fn (length (fnCalls s)) (snd (last calls)))) calls \<and>
            idle (execute fn (callAll opts fn s calls))) \<and>
         (leading opts = Some True \<longrightarrow>
            fnCalls (call opts fn p a s) = fnCalls s @ [a] \<and>
            settled (call opts fn p a s) = settled s @ [(p, fn (length (fnCalls s)) a)] \<and>
            idle (call opts fn p a s)) \<and>
         map fst (settled (debouncerRun opts fn evs)) @ pendingPromises (debouncerRun opts fn evs) =
           callers evs"
proof (intro conjI impI)
  assume tr: "leading opts \<noteq> Some True"
  note b = callAll_trailing[OF tr ne, of fn s]
  from b have la: "lastArgs (callAll opts fn s calls) = Some (snd (last calls))" by simp
  note e = execute_pending[OF la, of fn]
  show "fnCalls (callAll opts fn s calls) = fnCalls s" using b by simp
  show "settled (callAll opts fn s calls) = settled s" using b by simp
  show "pending (callAll opts fn s calls)" using b by (simp add: pending_def)
  show "timeoutFires fn (callAll opts fn s calls) = execute fn (callAll opts fn s calls)"
    using b by (simp add: timeoutFires_def)
  show "flush fn (callAll opts fn s calls) = execute fn (callAll opts fn s calls)"
    using b by (simp add: flush_def)
  show "maxWaitFires fn (callAll opts fn s calls) = execute fn (callAll opts fn s calls)"
    if "maxWait opts \<noteq> None"
    using b that by (simp add: maxWaitFires_def)
  show "fnCalls (execute fn (callAll opts fn s calls)) = fnCalls s @ [snd (last calls)]"
    using e(1) b by simp
  show "settled (execute fn (callAll opts fn s calls)) =
          settled s @ map (\<lambda>c. (fst c, fn (length (fnCalls s)) (snd (last calls)))) calls"
    using e(2) b idle by (simp add: idle_def)
  show "idle (execute fn (callAll opts fn s calls))" by (rule e(3))
next
  assume ld: "leading opts = Some True"
  show "fnCalls (call opts fn p a s) = fnCalls s @ [a]"
    using ld idle by (simp add: call_def execute_def clearTimeouts_def Let_def idle_def)
  show "settled (call opts fn p a s) = settled s @ [(p, fn (length (fnCalls s)) a)]"
    using ld idle by (simp add: call_def execute_def clearTimeouts_def Let_def idle_def)
  show "idle (call opts fn p a s)"
    using ld idle by (simp add: call_def execute_def clearTimeouts_def Let_def idle_def)
next
  show "map fst (settled (debouncerRun opts fn evs)) @ pendingPromises (debouncerRun opts fn evs) =
          callers evs"
    by (rule no_caller_dropped)
qed

theorem coalesced_batch_single_outcome_witness:
  "fnCalls (debouncerRun trailingOptions echo [Call 1 ''a'', Call 2 ''b'', Call 3 ''c'', TimeoutFires])
     = [''c''] \<and>
   settled (debouncerRun trailingOptions echo [Call 1 ''a'', Call 2 ''b'', Call 3 ''c'', TimeoutFires])
     = [(1, Inr ''c''), (2, Inr ''c''), (3, Inr ''c'')]"
proof -
  have i: "idle (newDebouncer :: (string, string) Debouncer)"
    by (simp add: idle_def newDebouncer_def)
  from coalesced_batch_single_outcome[OF i, where calls = "[(1, ''a''), (2, ''b''), (3, ''c'')]"
      and opts = trailingOptions and fn = echo and p = 4 and a = "''d''" and evs = "[]"]
  show ?thesis
    by (simp add: debouncerRun_def callAll_def call_def timeoutFires_def execute_def
        clearTimeouts_def trailingOptions_def newDebouncer_def echo_def Let_def)
qed

section \<open>Properties of the validator stage\<close>

lemma runValidatorsLoop_accumulates:
  assumes "\<forall>v\<in>set vs. \<exists>r. validate v d = Inr r"
  shows "runValidatorsLoop vs d acc =
           (Inr \<lparr>valid = (acc @ concat (map (\<lambda>v. reportedErrors v d) vs) = []),
                 errors = acc @ concat (map (\<lambda>v. reportedErrors v d) vs)\<rparr>,
            map (\<lambda>v. ValidatorRun (name v)) vs)"
  using assms
proof (induction vs arbitrary: acc)
  case Nil
  show ?case by simp
next
  case (Cons v vs)
  from Cons.prems obtain r where r: "validate v d = Inr r" by auto
  from Cons.prems have rest: "\<forall>v\<in>set vs. \<exists>r. validate v d = Inr r" by simp
  show ?case
    by (simp add: r Cons.IH[OF rest] reportedErrors_def)
qed

text \<open>
  Claim C6, as stated, fails: \<open>runValidators\<close> takes the errors of a validator only when
  its result is not valid (\<open>if (!result.valid)\<close>). A validator that answers
  \<open>{valid: true, errors: ['warning']}\<close> has its error list left out of the combined
  result.
\<close>

theorem runValidators_drops_errors_of_valid_results:
  "fst (runValidators [warnOnly] ()) = Inr \<lparr>valid = True, errors = []\<rparr> \<and>
   concat (map (\<lambda>v. validatorErrors v ()) [warnOnly]) = [''warning'']"
  by (simp add: runValidators_def warnOnly_def validatorErrors_def)

text \<open>
  Claim C6, amended. When no validator throws, every validator runs, in registration
  order, also after one reported invalid; the combined error list is the concatenation,
  in that order, of the error lists of the validators whose result is not valid, and
  \<open>valid\<close> is true exactly when that list is empty. Where every valid result has an
  empty error list, this is the concatenation of all the validators' error lists.
\<close>

theorem runValidators_accumulates:
  assumes "\<forall>v\<in>set vs. \<exists>r. validate v d = Inr r"
  shows "runValidators vs d =
           (Inr \<lparr>valid = (concat (map (\<lambda>v. reportedErrors v d) vs) = []),
                 errors = concat (map (\<lambda>v. reportedErrors v d) vs)\<rparr>,
            map (\<lambda>v. ValidatorRun (name v)) vs) \<and>
         ((\<forall>v\<in>set vs. \<forall>r. validate v d = Inr r \<longrightarrow> valid r \<longrightarrow> errors r = []) \<longrightarrow>
            concat (map (\<lambda>v. reportedErrors v d) vs) = concat (map (\<lambda>v. validatorErrors v d) vs))"
proof -
  have eqmaps: "map (\<lambda>v. reportedErrors v d) vs = map (\<lambda>v. validatorErrors v d) vs"
    if wf: "\<forall>v\<in>set vs. \<forall>r. validate v d = Inr r \<longrightarrow> valid r \<longrightarrow> errors r = []"
  proof (rule map_cong[OF refl])
    fix v assume v: "v \<in> set vs"
    show "reportedErrors v d = validatorErrors v d"
      using bspec[OF wf v]
      by (cases "validate v d") (auto simp: reportedErrors_def validatorErrors_def)
  qed
  have wf: "(\<forall>v\<in>set vs. \<forall>r. validate v d = Inr r \<longrightarrow> valid r \<longrightarrow> errors r = []) \<longrightarrow>
      concat (map (\<lambda>v. reportedErrors v d) vs) = concat (map (\<lambda>v. validatorErrors v d) vs)"
  proof
    assume a: "\<forall>v\<in>set vs. \<forall>r. validate v d = Inr r \<longrightarrow> valid r \<longrightarrow> errors r = []"
    from eqmaps[OF a]
    show "concat (map (\<lambda>v. reportedErrors v d) vs) = concat (map (\<lambda>v. validatorErrors v d) vs)"
      by (rule arg_cong)
  qed
  have "runValidators vs d =
           (Inr \<lparr>valid = (concat (map (\<lambda>v. reportedErrors v d) vs) = []),
                 errors = concat (map (\<lambda>v. reportedErrors v d) vs)\<rparr>,
            map (\<lambda>v. ValidatorRun (name v)) vs)"
    using runValidatorsLoop_accumulates[OF assms, of "[]"]
    by (simp add: runValidators_def)
  with wf show ?thesis by (rule_tac conjI)
qed

theorem runValidators_accumulates_witness:
  "runValidators [rejectWith ''A'' [''a1'', ''a2''], warnOnly, rejectWith ''B'' [''b1'']] () =
     (Inr \<lparr>valid = False, errors = [''a1'', ''a2'', ''b1'']\<rparr>,
      [ValidatorRun ''A'', ValidatorRun ''W'', ValidatorRun ''B''])"
  using runValidators_accumulates[of "[rejectWith ''A'' [''a1'', ''a2''], warnOnly, rejectWith ''B'' [''b1'']]" "()"]
  by (simp add: rejectWith_def warnOnly_def reportedErrors_def)

section \<open>Properties of the collector\<close>























section \<open>Properties of the memory handler\<close>

lemma memoryHandle_items:
  "items (memoryHandle h item) =
     (if maxItems h > 0 \<and> int (length (items h)) + 1 > maxItems h
      then drop (length (items h) + 1 - nat (maxItems h)) (items h @ [item])
      else items h @ [item])"
  by (simp add: memoryHandle_def sliceLast_def Let_def)

lemma memoryHandle_maxItems: "maxItems (memoryHandle h item) = maxItems h"
  by (simp add: memoryHandle_def Let_def)

lemma foldl_memoryHandle_maxItems: "maxItems (foldl memoryHandle h xs) = maxItems h"
  by (induction xs rule: rev_induct) (simp_all add: memoryHandle_maxItems)

lemma bounded_items:
  assumes "0 < k"
  shows "items (foldl memoryHandle (newMemoryHandler (Some k)) xs) = drop (length xs - nat k) xs"
proof (induction xs rule: rev_induct)
  case Nil
  show ?case by (simp add: newMemoryHandler_def)
next
  case (snoc x xs)
  let ?h = "foldl memoryHandle (newMemoryHandler (Some k)) xs"
  have mx: "maxItems ?h = k" by (simp add: foldl_memoryHandle_maxItems newMemoryHandler_def)
  show ?case
  proof (cases "length xs < nat k")
    case True
    then have "int (length xs) < k" by linarith
    with True snoc assms mx show ?thesis by (simp add: memoryHandle_items)
  next
    case False
    then have len: "length (drop (length xs - nat k) xs) = nat k" by simp
    from False assms have ge: "k \<le> int (length xs)" by linarith
    have "length xs - nat k + (length (drop (length xs - nat k) xs) + 1 - nat k) = Suc (length xs) - nat k"
      using False len by simp
    with snoc assms mx False len ge show ?thesis
      by (simp add: memoryHandle_items Suc_diff_le)
  qed
qed

lemma unbounded_items:
  assumes "k \<le> 0"
  shows "items (foldl memoryHandle (newMemoryHandler (Some k)) xs) = xs"
proof (induction xs rule: rev_induct)
  case Nil
  show ?case by (simp add: newMemoryHandler_def)
next
  case (snoc x xs)
  have "maxItems (foldl memoryHandle (newMemoryHandler (Some k)) xs) = k"
    by (simp add: foldl_memoryHandle_maxItems newMemoryHandler_def)
  with snoc assms show ?case by (simp add: memoryHandle_items)
qed

lemma newMemoryHandler_default: "newMemoryHandler None = newMemoryHandler (Some 0)"
  by (simp add: newMemoryHandler_def)

text \<open>
  Claim C10. A \<open>MemoryHandler\<close> built with \<open>maxItems = k > 0\<close> that has handled the items
  \<open>xs\<close> stores the last \<open>k\<close> of them (all of them while there are fewer), in arrival
  order, so never more than \<open>k\<close>; with \<open>maxItems = 0\<close>, which is the default, it stores
  every item handled.
\<close>

theorem memory_handler_keeps_most_recent:
  "(0 < k \<longrightarrow>
      items (foldl memoryHandle (newMemoryHandler (Some k)) xs) = drop (length xs - nat k) xs \<and>
      int (memoryCount (foldl memoryHandle (newMemoryHandler (Some k)) xs)) \<le> k \<and>
      memoryCount (foldl memoryHandle (newMemoryHandler (Some k)) xs) = min (length xs) (nat k)) \<and>
   items (foldl memoryHandle (newMemoryHandler (Some 0)) xs) = xs \<and>
   items (foldl memoryHandle (newMemoryHandler None) xs) = xs"
proof (intro conjI impI)
  assume k: "0 < k"
  show "items (foldl memoryHandle (newMemoryHandler (Some k)) xs) = drop (length xs - nat k) xs"
    by (rule bounded_items[OF k])
  show "int (memoryCount (foldl memoryHandle (newMemoryHandler (Some k)) xs)) \<le> k"
    using k by (simp add: memoryCount_def bounded_items[OF k])
  show "memoryCount (foldl memoryHandle (newMemoryHandler (Some k)) xs) = min (length xs) (nat k)"
    using k by (simp add: memoryCount_def bounded_items[OF k])
next
  show "items (foldl memoryHandle (newMemoryHandler (Some 0)) xs) = xs"
    by (rule unbounded_items) simp
  show "items (foldl memoryHandle (newMemoryHandler None) xs) = xs"
    unfolding newMemoryHandler_default by (rule unbounded_items) simp
qed

theorem memory_handler_keeps_most_recent_witness:
  "map data (items (foldl memoryHandle (newMemoryHandler (Some 2))
      [exampleItem 1, exampleItem 2, exampleItem 3])) = [2, 3]"
  using memory_handler_keeps_most_recent[of 2 "[exampleItem 1, exampleItem 2, exampleItem 3]"]
  by (simp add: exampleItem_def)

end
